theory Spec2Isabelle
  imports Main "HOL-Library.Product_Lexorder" "HOL-Library.Multiset" "HOL-Library.Monad_Syntax"
begin

section \<open>The meeting-slot matcher of scheduler.py\<close>

text \<open>
  The function \<^verbatim>\<open>find_best_times\<close> occurs twice, in \<^verbatim>\<open>src/scheduler.py\<close> and in
  \<^verbatim>\<open>src/api/index.py\<close>; the two copies differ only in whether the \<^verbatim>\<open>print\<close>
  calls are commented out. Printing does not influence the returned value and is left out
  of the model.
\<close>

subsection \<open>Data model\<close>

text \<open>
  \<^verbatim>\<open>TimeSlot.day\<close> is a pydantic \<^verbatim>\<open>Literal\<close> of the five weekday names, so it is an
  enumeration. \<^verbatim>\<open>TimeSlot.hour\<close> is a Python int; the range restriction
  \<^verbatim>\<open>Field(ge=9, le=16)\<close> is not needed by any result below and is not imposed.
\<close>

datatype weekday = Monday | Tuesday | Wednesday | Thursday | Friday

record TimeSlot =
  day :: weekday
  hour :: int

record UserInput =
  available_slots :: "TimeSlot list"
  preferred_slots :: "TimeSlot list"

text \<open>
  An entry of the result is the dict \<^verbatim>\<open>{'day': day, 'hour': hour, 'score': current_score}\<close>:
  the two fields of a slot and a score.
\<close>

record RankedSlot = TimeSlot +
  score :: int

datatype py_error = KeyError

subsection \<open>Python sets of (day, hour) tuples\<close>

text \<open>
  A Python \<^verbatim>\<open>set\<close> is modelled as a list without repetitions. \<^verbatim>\<open>s.add(x)\<close> leaves
  the set as it is when \<open>x\<close> is a member; \<^verbatim>\<open>s.intersection(t)\<close> keeps the members of
  \<open>s\<close> that are in \<open>t\<close>. The order in which Python iterates over a set is not
  specified; the model fixes one order (that of insertion), and
  \<open>rank_and_sort_iteration_order\<close> below shows that the value returned is the same for every
  other order of the one loop that iterates over a set.
\<close>

type_synonym slot_tuple = "weekday \<times> int"

definition set_add :: "'a \<Rightarrow> 'a list \<Rightarrow> 'a list" where
  "set_add x s = (if x \<in> set s then s else s @ [x])"

definition intersection :: "'a list \<Rightarrow> 'a list \<Rightarrow> 'a list" where
  "intersection s t = filter (\<lambda>x. x \<in> set t) s"

text \<open>
  \<^verbatim>\<open>for slot in user.available_slots: acc.add((slot.day, slot.hour))\<close>
\<close>

fun add_slots :: "TimeSlot list \<Rightarrow> slot_tuple list \<Rightarrow> slot_tuple list" where
  "add_slots [] acc = acc"
| "add_slots (slot # slots) acc = add_slots slots (set_add (day slot, hour slot) acc)"

subsection \<open>The intersection loop\<close>

text \<open>
  The loop over \<^verbatim>\<open>remaining_users\<close>. \<open>None\<close> is the early \<^verbatim>\<open>return []\<close> taken when
  the running intersection has become empty; \<open>Some\<close> carries \<^verbatim>\<open>common_slots\<close> at the
  end of the loop.
\<close>

fun intersect_remaining :: "slot_tuple list \<Rightarrow> UserInput list \<Rightarrow> slot_tuple list option" where
  "intersect_remaining common_slots [] = Some common_slots"
| "intersect_remaining common_slots (user # remaining_users) =
     (let current_user_slots = add_slots (available_slots user) [];
          common_slots' = intersection common_slots current_user_slots
      in if length common_slots' = 0 then None
         else intersect_remaining common_slots' remaining_users)"

subsection \<open>Scoring\<close>

text \<open>
  The innermost loop: \<^verbatim>\<open>found_preference\<close> becomes true at the first preferred slot with
  the given day and hour, and the loop stops there.
\<close>

fun found_preference :: "weekday \<Rightarrow> int \<Rightarrow> TimeSlot list \<Rightarrow> bool" where
  "found_preference d h [] = False"
| "found_preference d h (pref # prefs) =
     (if day pref = d \<and> hour pref = h then True else found_preference d h prefs)"

text \<open>The loop over all of \<^verbatim>\<open>users_data\<close>, threading \<^verbatim>\<open>current_score\<close>.\<close>

fun current_score :: "weekday \<Rightarrow> int \<Rightarrow> UserInput list \<Rightarrow> int \<Rightarrow> int" where
  "current_score d h [] acc = acc"
| "current_score d h (user # users) acc =
     current_score d h users
       (if found_preference d h (preferred_slots user) then acc + 1 else acc)"

text \<open>The loop over \<^verbatim>\<open>common_slots\<close>, threading \<^verbatim>\<open>ranked_slots\<close>.\<close>

fun rank_slots :: "slot_tuple list \<Rightarrow> UserInput list \<Rightarrow> RankedSlot list \<Rightarrow> RankedSlot list" where
  "rank_slots [] users_data ranked_slots = ranked_slots"
| "rank_slots ((d, h) # common_slots) users_data ranked_slots =
     rank_slots common_slots users_data
       (ranked_slots @ [\<lparr>day = d, hour = h, score = current_score d h users_data 0\<rparr>])"

subsection \<open>Sorting\<close>

text \<open>
  \<^verbatim>\<open>day_mapping\<close> is a dict; a lookup of a missing key raises \<^verbatim>\<open>KeyError\<close>.
\<close>

definition day_mapping :: "(weekday \<times> int) list" where
  "day_mapping = [(Monday, 1), (Tuesday, 2), (Wednesday, 3), (Thursday, 4), (Friday, 5)]"

definition get_sorting_priorities :: "RankedSlot \<Rightarrow> py_error + (int \<times> int \<times> int)" where
  "get_sorting_priorities slot =
     (let sort_by_score = score slot * (- 1) in
      case map_of day_mapping (day slot) of
        None \<Rightarrow> Inl KeyError
      | Some sort_by_day \<Rightarrow>
          (let sort_by_hour = hour slot in Inr (sort_by_score, sort_by_day, sort_by_hour)))"

text \<open>
  \<^verbatim>\<open>sorted(xs, key=f)\<close> computes the key of every element first (an exception of \<open>f\<close>
  ends the call), then sorts stably by the keys; tuples compare lexicographically, which
  is the order of \<open>Product_Lexorder\<close>. \<open>sort_key\<close> is a stable sort.
\<close>

fun decorate :: "('a \<Rightarrow> py_error + 'k) \<Rightarrow> 'a list \<Rightarrow> py_error + ('k \<times> 'a) list" where
  "decorate f [] = Inr []"
| "decorate f (x # xs) =
     (case f x of
        Inl e \<Rightarrow> Inl e
      | Inr k \<Rightarrow> (case decorate f xs of Inl e \<Rightarrow> Inl e | Inr kxs \<Rightarrow> Inr ((k, x) # kxs)))"

definition sorted_by_key :: "('a \<Rightarrow> py_error + 'k::linorder) \<Rightarrow> 'a list \<Rightarrow> py_error + 'a list" where
  "sorted_by_key f xs =
     (case decorate f xs of Inl e \<Rightarrow> Inl e | Inr kxs \<Rightarrow> Inr (map snd (sort_key fst kxs)))"

subsection \<open>find_best_times\<close>

definition find_best_times :: "UserInput list \<Rightarrow> py_error + RankedSlot list" where
  "find_best_times users_data =
     (case users_data of
        [] \<Rightarrow> Inr []
      | first_user # remaining_users \<Rightarrow>
          (case intersect_remaining (add_slots (available_slots first_user) []) remaining_users of
             None \<Rightarrow> Inr []
           | Some common_slots \<Rightarrow>
               sorted_by_key get_sorting_priorities (rank_slots common_slots users_data [])))"

subsection \<open>The variant without the early return\<close>

text \<open>
  The loop over \<^verbatim>\<open>remaining_users\<close> with the test \<^verbatim>\<open>if len(common_slots) == 0: return []\<close>
  removed: every participant is processed, and scoring and sorting always run.
\<close>

fun intersect_all :: "slot_tuple list \<Rightarrow> UserInput list \<Rightarrow> slot_tuple list" where
  "intersect_all common_slots [] = common_slots"
| "intersect_all common_slots (user # remaining_users) =
     (let current_user_slots = add_slots (available_slots user) [];
          common_slots' = intersection common_slots current_user_slots
      in intersect_all common_slots' remaining_users)"

definition find_best_times_no_short_circuit :: "UserInput list \<Rightarrow> py_error + RankedSlot list" where
  "find_best_times_no_short_circuit users_data =
     (case users_data of
        [] \<Rightarrow> Inr []
      | first_user # remaining_users \<Rightarrow>
          sorted_by_key get_sorting_priorities
            (rank_slots
               (intersect_all (add_slots (available_slots first_user) []) remaining_users)
               users_data []))"

subsection \<open>Vocabulary of the specification\<close>

text \<open>The (day, hour) pair of a slot or of a result entry.\<close>

definition slot_of :: "'a TimeSlot_scheme \<Rightarrow> slot_tuple" where
  "slot_of s = (day s, hour s)"

definition available_set :: "UserInput \<Rightarrow> slot_tuple set" where
  "available_set u = slot_of ` set (available_slots u)"

definition preferred_set :: "UserInput \<Rightarrow> slot_tuple set" where
  "preferred_set u = slot_of ` set (preferred_slots u)"

text \<open>The day rank of the specification: Monday is 1, Friday is 5.\<close>

fun day_rank :: "weekday \<Rightarrow> int" where
  "day_rank Monday = 1"
| "day_rank Tuesday = 2"
| "day_rank Wednesday = 3"
| "day_rank Thursday = 4"
| "day_rank Friday = 5"

definition composite_key :: "RankedSlot \<Rightarrow> int \<times> int \<times> int" where
  "composite_key r = (- score r, day_rank (day r), hour r)"

text \<open>
  The order of the result spelled out: a higher score first, then the earlier weekday, then
  the earlier hour.
\<close>

definition priority_le :: "RankedSlot \<Rightarrow> RankedSlot \<Rightarrow> bool" where
  "priority_le a b \<longleftrightarrow>
     score b < score a \<or>
     (score a = score b \<and>
       (day_rank (day a) < day_rank (day b) \<or>
        (day_rank (day a) = day_rank (day b) \<and> hour a \<le> hour b)))"

text \<open>The number of participants whose preferred slots contain a given pair.\<close>

definition preference_count :: "UserInput list \<Rightarrow> slot_tuple \<Rightarrow> int" where
  "preference_count users_data t =
     int (length (filter (\<lambda>u. t \<in> preferred_set u) users_data))"

definition ranked :: "UserInput list \<Rightarrow> slot_tuple \<Rightarrow> RankedSlot" where
  "ranked users_data t = \<lparr>day = fst t, hour = snd t, score = preference_count users_data t\<rparr>"

subsection \<open>Example participants\<close>

definition slot :: "weekday \<Rightarrow> int \<Rightarrow> TimeSlot" where
  "slot d h = \<lparr>day = d, hour = h\<rparr>"

definition user_a :: UserInput where
  "user_a = \<lparr>available_slots = [slot Monday 9, slot Tuesday 10, slot Monday 9, slot Friday 16],
             preferred_slots = [slot Tuesday 10, slot Tuesday 10]\<rparr>"

definition user_b :: UserInput where
  "user_b = \<lparr>available_slots = [slot Tuesday 10, slot Monday 9, slot Wednesday 11],
             preferred_slots = [slot Monday 9]\<rparr>"

definition user_c :: UserInput where
  "user_c = \<lparr>available_slots = [slot Thursday 12], preferred_slots = [slot Monday 9]\<rparr>"

definition user_d :: UserInput where
  "user_d = \<lparr>available_slots = [], preferred_slots = [slot Monday 9]\<rparr>"

section \<open>find_best_times on a store of objects\<close>

text \<open>
  The functions above take their input by value, so they cannot change it. Whether the
  Python function changes the objects it is handed depends on which objects its statements
  write to: \<^verbatim>\<open>first_user\<close>, \<^verbatim>\<open>user\<close>, \<^verbatim>\<open>slot\<close> and \<^verbatim>\<open>pref\<close> are references into the
  input, and \<^verbatim>\<open>add\<close> and \<^verbatim>\<open>append\<close> update an object in place. This section models the
  same function on an explicit store, statement by statement.
\<close>

subsection \<open>Objects and the store\<close>

text \<open>
  An address is an index into the store, and allocation appends an object. A
  \<^verbatim>\<open>TimeSlot\<close> holds its day and hour (a str and an int, both immutable, kept by
  value); a \<^verbatim>\<open>UserInput\<close> holds references to its two list objects; a list holds
  references; a set holds (day, hour) tuples; a result dict holds its three values.
\<close>

type_synonym addr = nat

datatype pyobj =
    TimeSlotObj weekday int
  | UserInputObj addr addr
  | ListObj "addr list"
  | SetObj "slot_tuple list"
  | DictObj weekday int int

type_synonym store = "pyobj list"

text \<open>
  Reading an attribute or an element. \<open>None\<close> is an exception: the address is not
  allocated, or the object there is not of the class the statement needs.
\<close>

definition lookup :: "store \<Rightarrow> addr \<Rightarrow> pyobj option" where
  "lookup h a = (if a < length h then Some (h ! a) else None)"

definition alloc :: "store \<Rightarrow> pyobj \<Rightarrow> store \<times> addr" where
  "alloc h v = (h @ [v], length h)"

definition get_slot :: "store \<Rightarrow> addr \<Rightarrow> TimeSlot option" where
  "get_slot h a = (case lookup h a of Some (TimeSlotObj d hr) \<Rightarrow> Some \<lparr>day = d, hour = hr\<rparr> | _ \<Rightarrow> None)"

definition get_user :: "store \<Rightarrow> addr \<Rightarrow> (addr \<times> addr) option" where
  "get_user h a = (case lookup h a of Some (UserInputObj av pf) \<Rightarrow> Some (av, pf) | _ \<Rightarrow> None)"

definition get_list :: "store \<Rightarrow> addr \<Rightarrow> addr list option" where
  "get_list h a = (case lookup h a of Some (ListObj rs) \<Rightarrow> Some rs | _ \<Rightarrow> None)"

definition get_set :: "store \<Rightarrow> addr \<Rightarrow> slot_tuple list option" where
  "get_set h a = (case lookup h a of Some (SetObj s) \<Rightarrow> Some s | _ \<Rightarrow> None)"

definition get_dict :: "store \<Rightarrow> addr \<Rightarrow> RankedSlot option" where
  "get_dict h a =
     (case lookup h a of Some (DictObj d hr sc) \<Rightarrow> Some \<lparr>day = d, hour = hr, score = sc\<rparr> | _ \<Rightarrow> None)"

text \<open>The two statements that update an object in place: \<^verbatim>\<open>s.add(t)\<close> and \<^verbatim>\<open>l.append(r)\<close>.\<close>

definition set_add_at :: "store \<Rightarrow> addr \<Rightarrow> slot_tuple \<Rightarrow> store option" where
  "set_add_at h s t = do { xs \<leftarrow> get_set h s; Some (h[s := SetObj (set_add t xs)]) }"

definition list_append_at :: "store \<Rightarrow> addr \<Rightarrow> addr \<Rightarrow> store option" where
  "list_append_at h l r = do { rs \<leftarrow> get_list h l; Some (h[l := ListObj (rs @ [r])]) }"

subsection \<open>The statements of find_best_times\<close>

text \<open>
  \<^verbatim>\<open>for slot in slots: s.add((slot.day, slot.hour))\<close>, for the set at address \<open>s\<close> and the
  references \<open>slots\<close> of the list iterated over.
\<close>

fun add_slots_st :: "store \<Rightarrow> addr \<Rightarrow> addr list \<Rightarrow> store option" where
  "add_slots_st h s [] = Some h"
| "add_slots_st h s (r # rs) =
     do { slot \<leftarrow> get_slot h r;
          h' \<leftarrow> set_add_at h s (day slot, hour slot);
          add_slots_st h' s rs }"

text \<open>
  \<^verbatim>\<open>s = set()\<close> followed by that loop over the list at address \<open>l\<close>: lines 44 to 46 for
  the first participant, lines 51 to 53 for the others.
\<close>

definition collect_slots :: "store \<Rightarrow> addr \<Rightarrow> (store \<times> addr) option" where
  "collect_slots h l =
     do { rs \<leftarrow> get_list h l;
          (h1, s) \<leftarrow> Some (alloc h (SetObj []));
          h2 \<leftarrow> add_slots_st h1 s rs;
          Some (h2, s) }"

text \<open>
  The loop over \<^verbatim>\<open>remaining_users\<close>. \<^verbatim>\<open>common_slots.intersection(current_user_slots)\<close>
  allocates a new set, to which \<^verbatim>\<open>common_slots\<close> is rebound. \<open>Inl\<close> is the early
  \<^verbatim>\<open>return []\<close>, with the address of the fresh empty list; \<open>Inr\<close> is the address of
  \<^verbatim>\<open>common_slots\<close> when the loop ends.
\<close>

fun intersect_remaining_st :: "store \<Rightarrow> addr \<Rightarrow> addr list \<Rightarrow> (store \<times> (addr + addr)) option" where
  "intersect_remaining_st h common_slots [] = Some (h, Inr common_slots)"
| "intersect_remaining_st h common_slots (user # remaining_users) =
     do { (av, pf) \<leftarrow> get_user h user;
          (h1, current_user_slots) \<leftarrow> collect_slots h av;
          cs \<leftarrow> get_set h1 common_slots;
          ts \<leftarrow> get_set h1 current_user_slots;
          (h2, common_slots') \<leftarrow> Some (alloc h1 (SetObj (intersection cs ts)));
          cs' \<leftarrow> get_set h2 common_slots';
          if length cs' = 0 then (case alloc h2 (ListObj []) of (h3, res) \<Rightarrow> Some (h3, Inl res))
          else intersect_remaining_st h2 common_slots' remaining_users }"

text \<open>The two inner loops of the scoring; they only read.\<close>

fun found_preference_st :: "store \<Rightarrow> weekday \<Rightarrow> int \<Rightarrow> addr list \<Rightarrow> bool option" where
  "found_preference_st h d hr [] = Some False"
| "found_preference_st h d hr (r # rs) =
     do { pref \<leftarrow> get_slot h r;
          if day pref = d \<and> hour pref = hr then Some True else found_preference_st h d hr rs }"

fun current_score_st :: "store \<Rightarrow> weekday \<Rightarrow> int \<Rightarrow> addr list \<Rightarrow> int \<Rightarrow> int option" where
  "current_score_st h d hr [] acc = Some acc"
| "current_score_st h d hr (user # users) acc =
     do { (av, pf) \<leftarrow> get_user h user;
          prefs \<leftarrow> get_list h pf;
          found \<leftarrow> found_preference_st h d hr prefs;
          current_score_st h d hr users (if found then acc + 1 else acc) }"

text \<open>
  The loop over \<^verbatim>\<open>common_slots\<close>: each round allocates a dict and appends a reference to
  it to the list \<^verbatim>\<open>ranked_slots\<close>.
\<close>

fun rank_slots_st :: "store \<Rightarrow> slot_tuple list \<Rightarrow> addr list \<Rightarrow> addr \<Rightarrow> store option" where
  "rank_slots_st h [] users ranked_slots = Some h"
| "rank_slots_st h ((d, hr) # common_slots) users ranked_slots =
     do { sc \<leftarrow> current_score_st h d hr users 0;
          (h1, entry) \<leftarrow> Some (alloc h (DictObj d hr sc));
          h2 \<leftarrow> list_append_at h1 ranked_slots entry;
          rank_slots_st h2 common_slots users ranked_slots }"

text \<open>
  \<^verbatim>\<open>sorted(ranked_slots, key=get_sorting_priorities)\<close> reads the dicts, and allocates
  the sorted list of references to them. A \<^verbatim>\<open>KeyError\<close> of the key function is an
  exception of the call.
\<close>

fun decorate_st :: "store \<Rightarrow> addr list \<Rightarrow> ((int \<times> int \<times> int) \<times> addr) list option" where
  "decorate_st h [] = Some []"
| "decorate_st h (r # rs) =
     do { x \<leftarrow> get_dict h r;
          k \<leftarrow> (case get_sorting_priorities x of Inl e \<Rightarrow> None | Inr k \<Rightarrow> Some k);
          krs \<leftarrow> decorate_st h rs;
          Some ((k, r) # krs) }"

definition sorted_st :: "store \<Rightarrow> addr \<Rightarrow> (store \<times> addr) option" where
  "sorted_st h l =
     do { rs \<leftarrow> get_list h l;
          krs \<leftarrow> decorate_st h rs;
          Some (alloc h (ListObj (map snd (sort_key fst krs)))) }"

text \<open>
  The whole function, for the list object at address \<open>users_data\<close>. It returns the store
  after the call and the address of the returned list. \<^verbatim>\<open>users_data[1:]\<close> allocates a
  new list.
\<close>

definition find_best_times_st :: "store \<Rightarrow> addr \<Rightarrow> (store \<times> addr) option" where
  "find_best_times_st h users_data =
     do { users \<leftarrow> get_list h users_data;
          case users of
            [] \<Rightarrow> Some (alloc h (ListObj []))
          | first_user # rest \<Rightarrow>
              do { (av, pf) \<leftarrow> get_user h first_user;
                   (h1, common_slots) \<leftarrow> collect_slots h av;
                   (h2, remaining_users) \<leftarrow> Some (alloc h1 (ListObj rest));
                   remaining \<leftarrow> get_list h2 remaining_users;
                   (h3, out) \<leftarrow> intersect_remaining_st h2 common_slots remaining;
                   case out of
                     Inl res \<Rightarrow> Some (h3, res)
                   | Inr common_slots' \<Rightarrow>
                       do { (h4, ranked_slots) \<leftarrow> Some (alloc h3 (ListObj []));
                            cs \<leftarrow> get_set h4 common_slots';
                            h5 \<leftarrow> rank_slots_st h4 cs users ranked_slots;
                            sorted_st h5 ranked_slots } } }"

subsection \<open>Reading values off the store\<close>

text \<open>
  The value of the input at an address, as the functions of the first section take it, and
  the value of a returned list of dicts.
\<close>

fun traverse :: "('a \<Rightarrow> 'b option) \<Rightarrow> 'a list \<Rightarrow> 'b list option" where
  "traverse f [] = Some []"
| "traverse f (x # xs) = do { y \<leftarrow> f x; ys \<leftarrow> traverse f xs; Some (y # ys) }"

definition read_slots :: "store \<Rightarrow> addr \<Rightarrow> TimeSlot list option" where
  "read_slots h l = do { rs \<leftarrow> get_list h l; traverse (get_slot h) rs }"

definition read_user :: "store \<Rightarrow> addr \<Rightarrow> UserInput option" where
  "read_user h u =
     do { (av, pf) \<leftarrow> get_user h u;
          a \<leftarrow> read_slots h av;
          p \<leftarrow> read_slots h pf;
          Some \<lparr>available_slots = a, preferred_slots = p\<rparr> }"

definition read_users :: "store \<Rightarrow> addr \<Rightarrow> UserInput list option" where
  "read_users h users_data = do { us \<leftarrow> get_list h users_data; traverse (read_user h) us }"

definition read_result :: "store \<Rightarrow> addr \<Rightarrow> RankedSlot list option" where
  "read_result h res = do { rs \<leftarrow> get_list h res; traverse (get_dict h) rs }"

text \<open>
  \<open>extends h0 h\<close>: every object of \<open>h0\<close> is in \<open>h\<close> at its address, unchanged; \<open>h\<close> may
  hold further objects.
\<close>

definition extends :: "store \<Rightarrow> store \<Rightarrow> bool" where
  "extends h0 h \<longleftrightarrow> length h0 \<le> length h \<and> take (length h0) h = h0"

subsection \<open>An example store\<close>

text \<open>
  Two participants that share their \<^verbatim>\<open>TimeSlot\<close> objects (addresses 0 and 1); the list
  of participants is at address 8.
\<close>

definition example_store :: store where
  "example_store =
     [TimeSlotObj Monday 9, TimeSlotObj Tuesday 10,
      ListObj [0, 1, 0], ListObj [1], UserInputObj 2 3,
      ListObj [1, 0], ListObj [0], UserInputObj 5 6,
      ListObj [4, 7]]"

lemmas example_defs = user_a_def user_b_def user_c_def user_d_def slot_def

section \<open>Properties of the matcher\<close>

subsection \<open>Sets as lists\<close>

lemma set_set_add: "set (set_add x s) = insert x (set s)"
  by (auto simp: set_add_def)

lemma distinct_set_add: "distinct s \<Longrightarrow> distinct (set_add x s)"
  by (simp add: set_add_def)

lemma set_add_slots: "set (add_slots slots acc) = set acc \<union> slot_of ` set slots"
  by (induction slots arbitrary: acc) (auto simp: set_set_add slot_of_def)

lemma distinct_add_slots: "distinct acc \<Longrightarrow> distinct (add_slots slots acc)"
  by (induction slots arbitrary: acc) (simp_all add: distinct_set_add)

lemma set_user_slots: "set (add_slots (available_slots u) []) = available_set u"
  by (simp add: set_add_slots available_set_def)

lemma set_intersection: "set (intersection s t) = set s \<inter> set t"
  by (auto simp: intersection_def)

lemma distinct_intersection: "distinct s \<Longrightarrow> distinct (intersection s t)"
  by (simp add: intersection_def)

lemma intersection_Nil: "intersection [] t = []"
  by (simp add: intersection_def)

subsection \<open>The intersection loop\<close>

lemma intersect_remaining_Some:
  "intersect_remaining c us = Some cs \<Longrightarrow>
     set cs = set c \<inter> \<Inter> (available_set ` set us) \<and> (distinct c \<longrightarrow> distinct cs)"
proof (induction us arbitrary: c)
  case Nil
  then show ?case by simp
next
  case (Cons u us)
  let ?c' = "intersection c (add_slots (available_slots u) [])"
  from Cons.prems have step: "intersect_remaining ?c' us = Some cs"
    by (simp add: Let_def split: if_splits)
  from Cons.IH [OF step] show ?case
    by (auto simp: set_intersection set_user_slots distinct_intersection)
qed

lemma intersect_remaining_None:
  "intersect_remaining c us = None \<Longrightarrow> set c \<inter> \<Inter> (available_set ` set us) = {}"
proof (induction us arbitrary: c)
  case Nil
  then show ?case by simp
next
  case (Cons u us)
  let ?c' = "intersection c (add_slots (available_slots u) [])"
  show ?case
  proof (cases "?c' = []")
    case True
    then have "set c \<inter> available_set u = {}"
      using set_intersection [of c "add_slots (available_slots u) []"]
      by (simp add: set_user_slots)
    then show ?thesis by auto
  next
    case False
    with Cons.prems have "intersect_remaining ?c' us = None"
      by (simp add: Let_def)
    from Cons.IH [OF this] show ?thesis
      by (auto simp: set_intersection set_user_slots)
  qed
qed

lemma intersect_all_Nil: "intersect_all [] us = []"
  by (induction us) (simp_all add: intersection_Nil)

lemma intersect_all_short_circuit:
  "intersect_all c us = (case intersect_remaining c us of None \<Rightarrow> [] | Some cs \<Rightarrow> cs)"
proof (induction us arbitrary: c)
  case Nil
  then show ?case by simp
next
  case (Cons u us)
  let ?c' = "intersection c (add_slots (available_slots u) [])"
  show ?case
  proof (cases "?c' = []")
    case True
    then show ?thesis by (simp add: Let_def intersect_all_Nil)
  next
    case False
    then show ?thesis by (simp add: Let_def Cons.IH)
  qed
qed

subsection \<open>Scoring\<close>

lemma found_preference_iff: "found_preference d h prefs \<longleftrightarrow> (d, h) \<in> slot_of ` set prefs"
  by (induction prefs) (auto simp: slot_of_def)

lemma current_score_eq:
  "current_score d h users acc = acc + preference_count users (d, h)"
  by (induction users arbitrary: acc)
     (simp_all add: preference_count_def found_preference_iff preferred_set_def)

lemma rank_slots_eq:
  "rank_slots cs users_data acc = acc @ map (ranked users_data) cs"
  by (induction cs users_data acc rule: rank_slots.induct)
     (simp_all add: ranked_def current_score_eq)

lemma slot_of_ranked: "slot_of (ranked users_data t) = t"
  by (simp add: slot_of_def ranked_def)

lemma map_slot_of_ranked: "map slot_of (map (ranked users_data) cs) = cs"
  by (simp add: slot_of_ranked comp_def)

subsection \<open>Sorting\<close>

text \<open>The dict \<^verbatim>\<open>day_mapping\<close> has an entry for each of the five days.\<close>

lemma day_mapping_total: "map_of day_mapping d = Some (day_rank d)"
  by (cases d) (simp_all add: day_mapping_def)

lemma get_sorting_priorities_eq: "get_sorting_priorities r = Inr (composite_key r)"
  by (simp add: get_sorting_priorities_def composite_key_def day_mapping_total)

lemma decorate_total:
  "(\<And>x. f x = Inr (k x)) \<Longrightarrow> decorate f xs = Inr (map (\<lambda>x. (k x, x)) xs)"
  by (induction xs) simp_all

lemma insort_key_decorated:
  "insort_key fst (k x, x) (map (\<lambda>y. (k y, y)) ys) = map (\<lambda>y. (k y, y)) (insort_key k x ys)"
  by (induction ys) simp_all

lemma sort_key_decorated:
  "sort_key fst (map (\<lambda>y. (k y, y)) xs) = map (\<lambda>y. (k y, y)) (sort_key k xs)"
  by (induction xs) (simp_all add: insort_key_decorated)

lemma sorted_by_key_total:
  "(\<And>x. f x = Inr (k x)) \<Longrightarrow> sorted_by_key f xs = Inr (sort_key k xs)"
  by (simp add: sorted_by_key_def decorate_total sort_key_decorated comp_def)

lemma rank_and_sort_eq:
  "sorted_by_key get_sorting_priorities (rank_slots cs users_data []) =
     Inr (sort_key composite_key (map (ranked users_data) cs))"
  by (simp add: sorted_by_key_total [of get_sorting_priorities composite_key]
       get_sorting_priorities_eq rank_slots_eq)

lemma composite_key_le: "composite_key a \<le> composite_key b \<Longrightarrow> priority_le a b"
  by (auto simp: composite_key_def priority_le_def less_eq_prod_def)

lemma day_rank_inj: "day_rank d = day_rank d' \<Longrightarrow> d = d'"
  by (cases d; cases d') simp_all

lemma composite_key_ranked_inj: "inj_on composite_key (ranked users_data ` A)"
  by (auto simp: inj_on_def composite_key_def ranked_def dest: day_rank_inj)

text \<open>
  Python does not fix the order in which \<^verbatim>\<open>for day, hour in common_slots\<close> visits the
  set. The returned list does not depend on it: the keys of distinct slots differ, so the
  sorted list is unique.
\<close>

lemma rank_and_sort_iteration_order:
  assumes "distinct cs" and "distinct cs'" and "set cs' = set cs"
  shows "sorted_by_key get_sorting_priorities (rank_slots cs' users_data []) =
         sorted_by_key get_sorting_priorities (rank_slots cs users_data [])"
proof -
  from assms have "mset cs' = mset cs"
    by (simp add: set_eq_iff_mset_eq_distinct)
  then have "mset (map (ranked users_data) cs') =
      mset (sort_key composite_key (map (ranked users_data) cs))"
    by simp
  moreover have "inj_on composite_key (set (map (ranked users_data) cs'))"
    by (simp add: composite_key_ranked_inj)
  moreover have "sorted (map composite_key (sort_key composite_key (map (ranked users_data) cs)))"
    by (rule sorted_sort_key)
  ultimately have "sort_key composite_key (map (ranked users_data) cs') =
      sort_key composite_key (map (ranked users_data) cs)"
    by (rule sort_key_inj_key_eq)
  then show ?thesis by (simp only: rank_and_sort_eq)
qed

subsection \<open>The shape of the result\<close>

lemma find_best_times_Nil: "find_best_times [] = Inr []"
  by (simp add: find_best_times_def)

lemma find_best_times_char:
  assumes "users_data \<noteq> []"
  shows "\<exists>cs. distinct cs \<and> set cs = \<Inter> (available_set ` set users_data) \<and>
           find_best_times users_data = Inr (sort_key composite_key (map (ranked users_data) cs))"
proof -
  from assms obtain u us where us: "users_data = u # us" by (cases users_data) auto
  let ?c = "add_slots (available_slots u) []"
  have dc: "distinct ?c" by (simp add: distinct_add_slots)
  show ?thesis
  proof (cases "intersect_remaining ?c us")
    case None
    from intersect_remaining_None [OF None]
    have "\<Inter> (available_set ` set users_data) = {}"
      by (simp add: us set_user_slots)
    moreover have "find_best_times users_data = Inr []"
      by (simp add: find_best_times_def us None)
    ultimately show ?thesis by (intro exI [of _ "[]"]) simp
  next
    case (Some cs)
    from intersect_remaining_Some [OF Some] dc
    have "set cs = \<Inter> (available_set ` set users_data)" "distinct cs"
      by (simp_all add: us set_user_slots)
    moreover have "find_best_times users_data =
        Inr (sort_key composite_key (map (ranked users_data) cs))"
      by (simp add: find_best_times_def us Some rank_and_sort_eq del: rank_slots.simps)
    ultimately show ?thesis by blast
  qed
qed

lemma slot_of_sorted_ranked:
  "slot_of ` set (sort_key composite_key (map (ranked users_data) cs)) = set cs"
  by (simp add: image_image slot_of_ranked)

lemma find_best_times_nonempty:
  assumes "users_data \<noteq> []"
  shows "\<exists>r. find_best_times users_data = Inr r \<and>
           slot_of ` set r = \<Inter> (available_set ` set users_data)"
proof -
  from find_best_times_char [OF assms] obtain cs where
    cs: "set cs = \<Inter> (available_set ` set users_data)"
    and r: "find_best_times users_data = Inr (sort_key composite_key (map (ranked users_data) cs))"
    by blast
  from cs slot_of_sorted_ranked [of users_data cs]
  have "slot_of ` set (sort_key composite_key (map (ranked users_data) cs)) =
      \<Inter> (available_set ` set users_data)"
    by (rule ssubst [rotated])
  with r show ?thesis by blast
qed

lemma find_best_times_slots:
  "\<exists>r. find_best_times users_data = Inr r \<and>
       slot_of ` set r =
         (if users_data = [] then {} else \<Inter> (available_set ` set users_data))"
proof (cases "users_data = []")
  case True
  then show ?thesis by (simp add: find_best_times_Nil)
next
  case False
  with find_best_times_nonempty [OF False] show ?thesis by simp
qed

lemma find_best_times_empty_common:
  assumes "\<Inter> (available_set ` set users_data) = {}"
  shows "find_best_times users_data = Inr []"
proof (cases "users_data = []")
  case True
  then show ?thesis by (simp add: find_best_times_Nil)
next
  case False
  from find_best_times_char [OF False] obtain cs where
    cs: "set cs = \<Inter> (available_set ` set users_data)"
    and r: "find_best_times users_data = Inr (sort_key composite_key (map (ranked users_data) cs))"
    by blast
  from cs assms have "cs = []" by simp
  with r show ?thesis by simp
qed

lemma distinct_slots_sorted:
  assumes "distinct cs"
  shows "distinct (map slot_of (sort_key composite_key (map (ranked users_data) cs)))"
proof -
  have "mset (map slot_of (sort_key composite_key xs)) = mset (map slot_of xs)" for xs
    by simp
  then have "mset (map slot_of (sort_key composite_key (map (ranked users_data) cs))) =
      mset (map slot_of (map (ranked users_data) cs))" .
  then have "mset (map slot_of (sort_key composite_key (map (ranked users_data) cs))) = mset cs"
    by (simp only: map_slot_of_ranked)
  from mset_eq_imp_distinct_iff [OF this] assms show ?thesis by simp
qed

subsection \<open>Evaluations on the example participants\<close>

lemma find_best_times_user_a:
  "find_best_times [user_a] =
     Inr [\<lparr>day = Tuesday, hour = 10, score = 1\<rparr>, \<lparr>day = Monday, hour = 9, score = 0\<rparr>,
          \<lparr>day = Friday, hour = 16, score = 0\<rparr>]"
  by code_simp

lemma find_best_times_user_a_b:
  "find_best_times [user_a, user_b] =
     Inr [\<lparr>day = Monday, hour = 9, score = 1\<rparr>, \<lparr>day = Tuesday, hour = 10, score = 1\<rparr>]"
  by code_simp

lemma find_best_times_user_b_a:
  "find_best_times [user_b, user_a] =
     Inr [\<lparr>day = Monday, hour = 9, score = 1\<rparr>, \<lparr>day = Tuesday, hour = 10, score = 1\<rparr>]"
  by code_simp

lemma find_best_times_user_a_c_b: "find_best_times [user_a, user_c, user_b] = Inr []"
  by code_simp

section \<open>Properties of the store model\<close>

subsection \<open>Stores that extend a store\<close>

lemma extends_refl: "extends h h"
  by (simp add: extends_def)

lemma extends_append: "extends h0 h \<Longrightarrow> extends h0 (h @ e)"
  by (simp add: extends_def)

lemma extends_update: "extends h0 h \<Longrightarrow> length h0 \<le> s \<Longrightarrow> extends h0 (h[s := v])"
  by (simp add: extends_def)

lemma lookup_extends: "extends h0 h \<Longrightarrow> lookup h0 a = Some v \<Longrightarrow> lookup h a = Some v"
proof -
  assume e: "extends h0 h" and l: "lookup h0 a = Some v"
  from l have a: "a < length h0" and v: "h0 ! a = v"
    by (simp_all add: lookup_def split: if_splits)
  from e have "take (length h0) h ! a = h0 ! a" by (simp add: extends_def)
  with a have "h ! a = h0 ! a" by simp
  with a v e show ?thesis by (simp add: lookup_def extends_def)
qed

lemma get_slot_extends: "extends h0 h \<Longrightarrow> get_slot h0 a = Some t \<Longrightarrow> get_slot h a = Some t"
  by (auto simp: get_slot_def dest: lookup_extends split: option.splits pyobj.splits)

lemma get_user_extends: "extends h0 h \<Longrightarrow> get_user h0 a = Some p \<Longrightarrow> get_user h a = Some p"
  by (auto simp: get_user_def dest: lookup_extends split: option.splits pyobj.splits)

lemma get_list_extends: "extends h0 h \<Longrightarrow> get_list h0 a = Some rs \<Longrightarrow> get_list h a = Some rs"
  by (auto simp: get_list_def dest: lookup_extends split: option.splits pyobj.splits)

lemma get_set_extends: "extends h0 h \<Longrightarrow> get_set h0 a = Some xs \<Longrightarrow> get_set h a = Some xs"
  by (auto simp: get_set_def dest: lookup_extends split: option.splits pyobj.splits)

lemma get_dict_extends: "extends h0 h \<Longrightarrow> get_dict h0 a = Some x \<Longrightarrow> get_dict h a = Some x"
  by (auto simp: get_dict_def dest: lookup_extends split: option.splits pyobj.splits)

lemma traverse_mono:
  "traverse f xs = Some ys \<Longrightarrow> (\<And>x y. f x = Some y \<Longrightarrow> g x = Some y) \<Longrightarrow>
     traverse g xs = Some ys"
  by (induction xs arbitrary: ys) (auto split: bind_splits)

lemma read_slots_SomeD:
  assumes "read_slots h l = Some ts"
  obtains rs where "get_list h l = Some rs" and "traverse (get_slot h) rs = Some ts"
  using assms by (auto simp: read_slots_def split: bind_splits)

lemma read_slots_SomeI:
  "get_list h l = Some rs \<Longrightarrow> traverse (get_slot h) rs = Some ts \<Longrightarrow> read_slots h l = Some ts"
  by (simp add: read_slots_def)

lemma read_user_SomeD:
  assumes "read_user h u = Some usr"
  obtains av pf where "get_user h u = Some (av, pf)"
    and "read_slots h av = Some (available_slots usr)"
    and "read_slots h pf = Some (preferred_slots usr)"
  using assms by (auto simp: read_user_def split: bind_splits)

lemma read_user_SomeI:
  "get_user h u = Some (av, pf) \<Longrightarrow> read_slots h av = Some (available_slots usr) \<Longrightarrow>
     read_slots h pf = Some (preferred_slots usr) \<Longrightarrow> read_user h u = Some usr"
  by (simp add: read_user_def)

lemma read_slots_extends:
  assumes "extends h0 h" and "read_slots h0 l = Some ts"
  shows "read_slots h l = Some ts"
proof -
  from assms(2) obtain rs where
    rs: "get_list h0 l = Some rs" and ts: "traverse (get_slot h0) rs = Some ts"
    by (rule read_slots_SomeD)
  from ts have "traverse (get_slot h) rs = Some ts"
    by (rule traverse_mono) (rule get_slot_extends [OF assms(1)])
  with get_list_extends [OF assms(1) rs] show ?thesis by (rule read_slots_SomeI)
qed

lemma read_user_extends:
  assumes "extends h0 h" and "read_user h0 u = Some usr"
  shows "read_user h u = Some usr"
proof -
  from assms(2) obtain av pf where
    u: "get_user h0 u = Some (av, pf)"
    and a: "read_slots h0 av = Some (available_slots usr)"
    and p: "read_slots h0 pf = Some (preferred_slots usr)"
    by (rule read_user_SomeD)
  from get_user_extends [OF assms(1) u] read_slots_extends [OF assms(1) a]
    read_slots_extends [OF assms(1) p]
  show ?thesis by (rule read_user_SomeI)
qed

lemma traverse_read_user_extends:
  assumes "extends h0 h" and "traverse (read_user h0) rs = Some us"
  shows "traverse (read_user h) rs = Some us"
  using assms(2) by (rule traverse_mono) (rule read_user_extends [OF assms(1)])

lemma read_users_extends:
  assumes "extends h0 h" and "read_users h0 ud = Some us"
  shows "read_users h ud = Some us"
proof -
  from assms(2) obtain rs where
    rs: "get_list h0 ud = Some rs" and us: "traverse (read_user h0) rs = Some us"
    by (auto simp: read_users_def split: bind_splits)
  from get_list_extends [OF assms(1) rs] traverse_read_user_extends [OF assms(1) us]
  show ?thesis by (simp add: read_users_def)
qed

lemma extends_trans:
  assumes "extends h0 h" and "extends h h'"
  shows "extends h0 h'"
proof -
  from assms have l: "length h0 \<le> length h" "length h \<le> length h'"
    and t: "take (length h0) h = h0" "take (length h) h' = h"
    by (simp_all add: extends_def)
  from l have "take (length h0) (take (length h) h') = take (length h0) h'"
    by (simp add: min_def)
  with t have "take (length h0) h' = h0" by simp
  with l show ?thesis by (simp add: extends_def)
qed

subsection \<open>The loops on the store\<close>

lemma get_set_SomeD: "get_set h s = Some xs \<Longrightarrow> s < length h \<and> h ! s = SetObj xs"
  by (auto simp: get_set_def lookup_def split: if_splits pyobj.splits)

lemma get_list_SomeD: "get_list h l = Some rs \<Longrightarrow> l < length h \<and> h ! l = ListObj rs"
  by (auto simp: get_list_def lookup_def split: if_splits pyobj.splits)

lemma get_dict_SomeD:
  "get_dict h a = Some x \<Longrightarrow> a < length h \<and> h ! a = DictObj (day x) (hour x) (score x)"
  by (auto simp: get_dict_def lookup_def split: if_splits pyobj.splits)

lemma get_set_alloc: "get_set (h @ [SetObj xs]) (length h) = Some xs"
  by (simp add: get_set_def lookup_def)

lemma get_list_alloc: "get_list (h @ [ListObj rs]) (length h) = Some rs"
  by (simp add: get_list_def lookup_def)

lemma get_set_update: "s < length h \<Longrightarrow> get_set (h[s := SetObj xs]) s = Some xs"
  by (simp add: get_set_def lookup_def)

lemma get_slot_update_set:
  "get_set h s = Some acc \<Longrightarrow> get_slot (h[s := SetObj xs]) r = get_slot h r"
  by (cases "r = s") (auto dest!: get_set_SomeD simp: get_slot_def lookup_def)

lemma traverse_cong: "(\<And>x. x \<in> set xs \<Longrightarrow> f x = g x) \<Longrightarrow> traverse f xs = traverse g xs"
  by (induction xs) simp_all

lemma add_slots_st_eq:
  "get_set h s = Some acc \<Longrightarrow> traverse (get_slot h) rs = Some ts \<Longrightarrow>
     add_slots_st h s rs = Some (h[s := SetObj (add_slots ts acc)])"
proof (induction rs arbitrary: h acc ts)
  case Nil
  from Nil.prems(1) have "h ! s = SetObj acc" by (simp add: get_set_SomeD)
  then have "h[s := SetObj acc] = h" by (metis list_update_id)
  with Nil.prems(2) show ?case by simp
next
  case (Cons r rs)
  from Cons.prems(2) obtain t ts' where
    t: "get_slot h r = Some t" and ts': "traverse (get_slot h) rs = Some ts'"
    and ts: "ts = t # ts'"
    by (auto split: bind_splits)
  let ?h' = "h[s := SetObj (set_add (day t, hour t) acc)]"
  from Cons.prems(1) have s: "s < length h" by (auto dest: get_set_SomeD)
  have step: "set_add_at h s (day t, hour t) = Some ?h'"
    by (simp add: set_add_at_def Cons.prems(1))
  have g: "get_set ?h' s = Some (set_add (day t, hour t) acc)"
    using s by (rule get_set_update)
  have "traverse (get_slot ?h') rs = traverse (get_slot h) rs"
    by (rule traverse_cong) (rule get_slot_update_set [OF Cons.prems(1)])
  with ts' have "traverse (get_slot ?h') rs = Some ts'" by simp
  from Cons.IH [OF g this] show ?case
    by (simp add: t step ts)
qed

lemma collect_slots_eq:
  assumes "read_slots h l = Some ts"
  shows "collect_slots h l = Some (h @ [SetObj (add_slots ts [])], length h)"
proof -
  from assms obtain rs where
    rs: "get_list h l = Some rs" and ts: "traverse (get_slot h) rs = Some ts"
    by (rule read_slots_SomeD)
  let ?h1 = "h @ [SetObj []]"
  have e: "extends h ?h1" by (simp add: extends_append extends_refl)
  from ts have "traverse (get_slot ?h1) rs = Some ts"
    by (rule traverse_mono) (rule get_slot_extends [OF e])
  from add_slots_st_eq [OF get_set_alloc this]
  have "add_slots_st ?h1 (length h) rs = Some (h @ [SetObj (add_slots ts [])])"
    by simp
  then show ?thesis by (simp add: collect_slots_def rs alloc_def)
qed

lemma found_preference_st_eq:
  "traverse (get_slot h) rs = Some ps \<Longrightarrow>
     found_preference_st h d hr rs = Some (found_preference d hr ps)"
  by (induction rs arbitrary: ps) (auto split: bind_splits)

lemma current_score_st_eq:
  "traverse (read_user h) urefs = Some us \<Longrightarrow>
     current_score_st h d hr urefs acc = Some (current_score d hr us acc)"
proof (induction urefs arbitrary: us acc)
  case Nil
  then show ?case by simp
next
  case (Cons u urefs)
  from Cons.prems obtain usr us' where
    usr: "read_user h u = Some usr" and us': "traverse (read_user h) urefs = Some us'"
    and us: "us = usr # us'"
    by (auto split: bind_splits)
  from usr obtain av pf where
    u: "get_user h u = Some (av, pf)"
    and p: "read_slots h pf = Some (preferred_slots usr)"
    by (rule read_user_SomeD)
  from p obtain prefs where
    l: "get_list h pf = Some prefs" and t: "traverse (get_slot h) prefs = Some (preferred_slots usr)"
    by (rule read_slots_SomeD)
  show ?case
    by (simp add: u l found_preference_st_eq [OF t] Cons.IH [OF us'] us)
qed

lemma intersect_remaining_st_eq:
  assumes "extends h0 h" and "traverse (read_user h0) urefs = Some us"
    and "get_set h c = Some cs"
  shows "\<exists>h' out. intersect_remaining_st h c urefs = Some (h', out) \<and> extends h0 h' \<and>
     (case intersect_remaining cs us of
        None \<Rightarrow> (\<exists>res. out = Inl res \<and> get_list h' res = Some [])
      | Some cs' \<Rightarrow> (\<exists>c'. out = Inr c' \<and> get_set h' c' = Some cs'))"
  using assms
proof (induction urefs arbitrary: h c cs us)
  case Nil
  then show ?case by simp
next
  case (Cons u urefs)
  from Cons.prems(2) obtain usr us' where
    usr: "read_user h0 u = Some usr" and us': "traverse (read_user h0) urefs = Some us'"
    and us: "us = usr # us'"
    by (auto split: bind_splits)
  from read_user_extends [OF Cons.prems(1) usr] obtain av pf where
    u: "get_user h u = Some (av, pf)"
    and a: "read_slots h av = Some (available_slots usr)"
    by (rule read_user_SomeD)
  let ?ts = "add_slots (available_slots usr) []"
  let ?h1 = "h @ [SetObj ?ts]"
  let ?cs' = "intersection cs ?ts"
  let ?h2 = "?h1 @ [SetObj ?cs']"
  have col: "collect_slots h av = Some (?h1, length h)"
    using a by (rule collect_slots_eq)
  have e1: "extends h ?h1" by (simp add: extends_append extends_refl)
  have g1: "get_set ?h1 c = Some cs"
    using e1 Cons.prems(3) by (rule get_set_extends)
  have g2: "get_set ?h1 (length h) = Some ?ts" by (rule get_set_alloc)
  have g3: "get_set ?h2 (length ?h1) = Some ?cs'" by (rule get_set_alloc)
  have e2: "extends h0 ?h2"
    by (intro extends_append Cons.prems(1))
  show ?case
  proof (cases "?cs' = []")
    case True
    have run: "intersect_remaining_st h c (u # urefs) =
        Some (?h2 @ [ListObj []], Inl (length ?h2))"
      using g3 True by (simp add: u col g1 g2 alloc_def)
    have "extends h0 (?h2 @ [ListObj []])" using e2 by (rule extends_append)
    moreover have "get_list (?h2 @ [ListObj []]) (length ?h2) = Some []"
      by (rule get_list_alloc)
    moreover from True have "intersect_remaining cs us = None"
      by (simp add: us Let_def)
    ultimately show ?thesis using run by simp
  next
    case False
    have run: "intersect_remaining_st h c (u # urefs) =
        intersect_remaining_st ?h2 (length ?h1) urefs"
      using g3 False by (simp add: u col g1 g2 alloc_def)
    from False have p: "intersect_remaining cs us = intersect_remaining ?cs' us'"
      by (simp add: us Let_def)
    from Cons.IH [OF e2 us' g3] show ?thesis
      unfolding run p .
  qed
qed

lemma get_dict_alloc:
  "get_dict (h @ [DictObj d hr sc]) (length h) = Some \<lparr>day = d, hour = hr, score = sc\<rparr>"
  by (simp add: get_dict_def lookup_def)

lemma get_list_update: "l < length h \<Longrightarrow> get_list (h[l := ListObj rs]) l = Some rs"
  by (simp add: get_list_def lookup_def)

lemma get_dict_update_list:
  "get_list h l = Some acc \<Longrightarrow> get_dict (h[l := ListObj rs]) a = get_dict h a"
  by (cases "a = l") (auto dest!: get_list_SomeD simp: get_dict_def lookup_def)

lemma traverse_append:
  "traverse f xs = Some ys \<Longrightarrow> traverse f xs' = Some ys' \<Longrightarrow>
     traverse f (xs @ xs') = Some (ys @ ys')"
  by (induction xs arbitrary: ys) (auto split: bind_splits)

lemma rank_slots_st_eq:
  assumes "extends h0 h" and "traverse (read_user h0) urefs = Some us"
    and "length h0 \<le> rl" and "get_list h rl = Some acc"
    and "traverse (get_dict h) acc = Some racc"
  shows "\<exists>h' acc'. rank_slots_st h cs urefs rl = Some h' \<and> extends h0 h' \<and>
           get_list h' rl = Some acc' \<and>
           traverse (get_dict h') acc' = Some (rank_slots cs us racc)"
  using assms(1,4,5)
proof (induction cs arbitrary: h acc racc)
  case Nil
  then show ?case by simp
next
  case (Cons t cs)
  obtain d hr where t: "t = (d, hr)" by (cases t)
  let ?sc = "current_score d hr us 0"
  let ?h1 = "h @ [DictObj d hr ?sc]"
  let ?h2 = "?h1[rl := ListObj (acc @ [length h])]"
  from Cons.prems(2) have rl: "rl < length h" by (simp add: get_list_SomeD)
  have sc: "current_score_st h d hr urefs 0 = Some ?sc"
    by (rule current_score_st_eq) (rule traverse_read_user_extends [OF Cons.prems(1) assms(2)])
  have e1: "extends h ?h1" by (simp add: extends_append extends_refl)
  have l1: "get_list ?h1 rl = Some acc"
    using e1 Cons.prems(2) by (rule get_list_extends)
  have app: "list_append_at ?h1 rl (length h) = Some ?h2"
    by (simp add: list_append_at_def l1)
  have e2: "extends h0 ?h2"
    by (intro extends_update extends_append Cons.prems(1) assms(3))
  have l2: "get_list ?h2 rl = Some (acc @ [length h])"
    using rl by (simp add: get_list_update)
  have d1: "traverse (get_dict ?h1) acc = Some racc"
    using Cons.prems(3) by (rule traverse_mono) (rule get_dict_extends [OF e1])
  have d2: "traverse (get_dict ?h1) [length h] =
      Some [\<lparr>day = d, hour = hr, score = ?sc\<rparr>]"
    by (simp add: get_dict_alloc)
  have "traverse (get_dict ?h2) (acc @ [length h]) = traverse (get_dict ?h1) (acc @ [length h])"
    by (rule traverse_cong) (rule get_dict_update_list [OF l1])
  also from d1 d2 have "\<dots> = Some (racc @ [\<lparr>day = d, hour = hr, score = ?sc\<rparr>])"
    by (rule traverse_append)
  finally have d3: "traverse (get_dict ?h2) (acc @ [length h]) =
      Some (racc @ [\<lparr>day = d, hour = hr, score = ?sc\<rparr>])" .
  from Cons.IH [OF e2 l2 d3] show ?case
    by (simp add: t sc alloc_def app)
qed

subsection \<open>Sorting on the store\<close>

lemma insort_key_map:
  "insort_key f (g x) (map g ys) = map g (insort_key (\<lambda>y. f (g y)) x ys)"
  by (induction ys) simp_all

lemma sort_key_map: "sort_key f (map g xs) = map g (sort_key (\<lambda>y. f (g y)) xs)"
  by (induction xs) (simp_all add: insort_key_map)

lemma traverse_zip:
  "traverse f rs = Some xs \<Longrightarrow>
     length rs = length xs \<and> (\<forall>p \<in> set (zip rs xs). f (fst p) = Some (snd p))"
  by (induction rs arbitrary: xs) (auto split: bind_splits)

lemma traverse_pairs:
  "(\<forall>p \<in> set qs. f (fst p) = Some (snd p)) \<Longrightarrow> traverse f (map fst qs) = Some (map snd qs)"
  by (induction qs) simp_all

lemma decorate_st_eq:
  "traverse (get_dict h) rs = Some xs \<Longrightarrow>
     decorate_st h rs = Some (map (\<lambda>p. (composite_key (snd p), fst p)) (zip rs xs))"
  by (induction rs arbitrary: xs) (auto simp: get_sorting_priorities_eq split: bind_splits)

lemma sorted_st_eq:
  assumes "get_list h l = Some rs" and "traverse (get_dict h) rs = Some xs"
  shows "\<exists>h' res. sorted_st h l = Some (h', res) \<and> extends h h' \<and>
           read_result h' res = Some (sort_key composite_key xs)"
proof -
  let ?ps = "zip rs xs"
  let ?qs = "sort_key (\<lambda>p. composite_key (snd p)) ?ps"
  let ?h' = "h @ [ListObj (map fst ?qs)]"
  from traverse_zip [OF assms(2)] have len: "length rs = length xs"
    and rd: "\<forall>p \<in> set ?ps. get_dict h (fst p) = Some (snd p)"
    by simp_all
  have "map snd (sort_key fst (map (\<lambda>p. (composite_key (snd p), fst p)) ?ps)) = map fst ?qs"
    by (simp add: sort_key_map)
  then have run: "sorted_st h l = Some (?h', length h)"
    by (simp add: sorted_st_def assms(1) decorate_st_eq [OF assms(2)] alloc_def)
  have e: "extends h ?h'" by (simp add: extends_append extends_refl)
  from rd have "\<forall>p \<in> set ?qs. get_dict h (fst p) = Some (snd p)" by simp
  then have "traverse (get_dict h) (map fst ?qs) = Some (map snd ?qs)"
    by (rule traverse_pairs)
  then have "traverse (get_dict ?h') (map fst ?qs) = Some (map snd ?qs)"
    by (rule traverse_mono) (rule get_dict_extends [OF e])
  moreover have "map snd ?qs = sort_key composite_key xs"
    using sort_key_map [of composite_key snd ?ps, symmetric] len by simp
  ultimately have "read_result ?h' (length h) = Some (sort_key composite_key xs)"
    by (simp add: read_result_def get_list_alloc)
  with run e show ?thesis by blast
qed

subsection \<open>The call\<close>

text \<open>
  On a store that holds the input \<open>us\<close> at \<open>users_data\<close>, the call returns; the store after
  it extends the store before it; and the list it returns holds the value that
  \<open>find_best_times us\<close> computes.
\<close>

lemma read_users_SomeD:
  assumes "read_users h ud = Some us"
  obtains urefs where "get_list h ud = Some urefs" and "traverse (read_user h) urefs = Some us"
  using assms by (auto simp: read_users_def split: bind_splits)

lemma find_best_times_st_refines:
  assumes "read_users h users_data = Some us"
  shows "\<exists>h' res r. find_best_times_st h users_data = Some (h', res) \<and> extends h h' \<and>
           read_result h' res = Some r \<and> find_best_times us = Inr r"
proof -
  from assms obtain urefs where
    ud: "get_list h users_data = Some urefs" and tr: "traverse (read_user h) urefs = Some us"
    by (rule read_users_SomeD)
  show ?thesis
  proof (cases urefs)
    case Nil
    with tr have us: "us = []" by simp
    have "find_best_times_st h users_data = Some (h @ [ListObj []], length h)"
      by (simp add: find_best_times_st_def ud Nil alloc_def)
    moreover have "extends h (h @ [ListObj []])" by (simp add: extends_append extends_refl)
    moreover have "read_result (h @ [ListObj []]) (length h) = Some []"
      by (simp add: read_result_def get_list_alloc)
    ultimately show ?thesis by (simp add: us find_best_times_Nil)
  next
    case (Cons u rest)
    with tr obtain usr us' where
      usr: "read_user h u = Some usr" and us': "traverse (read_user h) rest = Some us'"
      and us: "us = usr # us'"
      by (auto split: bind_splits)
    from usr obtain av pf where
      u: "get_user h u = Some (av, pf)"
      and a: "read_slots h av = Some (available_slots usr)"
      by (rule read_user_SomeD)
    let ?c0 = "add_slots (available_slots usr) []"
    let ?h1 = "h @ [SetObj ?c0]"
    let ?h2 = "?h1 @ [ListObj rest]"
    have col: "collect_slots h av = Some (?h1, length h)"
      using a by (rule collect_slots_eq)
    have e2: "extends h ?h2" by (intro extends_append extends_refl)
    have g1: "get_list ?h2 (length ?h1) = Some rest" by (rule get_list_alloc)
    have "extends ?h1 ?h2" by (intro extends_append extends_refl)
    then have g2: "get_set ?h2 (length h) = Some ?c0"
      using get_set_alloc by (rule get_set_extends)
    from intersect_remaining_st_eq [OF e2 us' g2] obtain h3 out where
      run3: "intersect_remaining_st ?h2 (length h) rest = Some (h3, out)"
      and e3: "extends h h3"
      and out: "case intersect_remaining ?c0 us' of
          None \<Rightarrow> (\<exists>res. out = Inl res \<and> get_list h3 res = Some [])
        | Some cs' \<Rightarrow> (\<exists>c'. out = Inr c' \<and> get_set h3 c' = Some cs')"
      by blast
    show ?thesis
    proof (cases "intersect_remaining ?c0 us'")
      case None
      with out obtain res where o: "out = Inl res" and r: "get_list h3 res = Some []"
        by auto
      from r have "read_result h3 res = Some []" by (simp add: read_result_def)
      moreover from None have "find_best_times us = Inr []"
        by (simp add: find_best_times_def us)
      moreover have "find_best_times_st h users_data = Some (h3, res)"
        using g1 run3 o by (simp add: find_best_times_st_def ud Cons u col alloc_def)
      ultimately show ?thesis using e3 by simp
    next
      case (Some cs')
      with out obtain c' where o: "out = Inr c'" and c': "get_set h3 c' = Some cs'"
        by auto
      let ?h4 = "h3 @ [ListObj []]"
      have e34: "extends h3 ?h4" by (intro extends_append extends_refl)
      have e4: "extends h ?h4" using e3 by (rule extends_append)
      have g4: "get_set ?h4 c' = Some cs'" using e34 c' by (rule get_set_extends)
      from e3 have le: "length h \<le> length h3" by (simp add: extends_def)
      have l4: "get_list ?h4 (length h3) = Some []" by (rule get_list_alloc)
      have d4: "traverse (get_dict ?h4) [] = Some []" by simp
      from rank_slots_st_eq [OF e4 tr le l4 d4, of cs'] obtain h5 acc' where
        run5: "rank_slots_st ?h4 cs' urefs (length h3) = Some h5"
        and e5: "extends h h5"
        and l5: "get_list h5 (length h3) = Some acc'"
        and d5: "traverse (get_dict h5) acc' = Some (rank_slots cs' us [])"
        by blast
      from sorted_st_eq [OF l5 d5] obtain h6 res where
        run6: "sorted_st h5 (length h3) = Some (h6, res)"
        and e6: "extends h5 h6"
        and r6: "read_result h6 res = Some (sort_key composite_key (rank_slots cs' us []))"
        by blast
      have "find_best_times_st h users_data = Some (h6, res)"
        using g1 run3 o g4 run5 run6
        by (simp add: find_best_times_st_def ud Cons u col alloc_def)
      moreover have "extends h h6" using e5 e6 by (rule extends_trans)
      moreover have "find_best_times us = Inr (sort_key composite_key (rank_slots cs' us []))"
      proof -
        have "find_best_times (usr # us') =
            sorted_by_key get_sorting_priorities (rank_slots cs' (usr # us') [])"
          by (simp add: find_best_times_def Some)
        also have "\<dots> = Inr (sort_key composite_key (rank_slots cs' (usr # us') []))"
          by (rule sorted_by_key_total) (rule get_sorting_priorities_eq)
        finally show ?thesis by (simp only: us)
      qed
      ultimately show ?thesis using r6 by blast
    qed
  qed
qed

section \<open>The claims\<close>

subsection \<open>C1: the result holds the common slots\<close>

text \<open>
  C1, as stated, fails on the empty input: \<^verbatim>\<open>if not users_data: return []\<close> returns the
  empty list, whose set of (day, hour) pairs is empty, while the intersection of the
  available-slot sets of no participants at all is the set of all pairs.
\<close>

theorem find_best_times_intersection_empty_input:
  "find_best_times [] = Inr [] \<and>
   slot_of ` set ([] :: RankedSlot list) \<noteq> \<Inter> (available_set ` set ([] :: UserInput list))"
  by (simp add: find_best_times_Nil)

text \<open>
  C1 (amended): for every non-empty input, find_best_times returns a list whose set of
  (day, hour) pairs is the intersection of the available-slot sets of all participants; for
  the empty input that set is empty.
\<close>

theorem find_best_times_intersection:
  "\<exists>r. find_best_times users_data = Inr r \<and>
       slot_of ` set r =
         (if users_data = [] then {} else \<Inter> (available_set ` set users_data))"
proof (cases "users_data = []")
  case True
  then show ?thesis by (simp add: find_best_times_Nil)
next
  case False
  from find_best_times_char [OF False] obtain cs where
    cs: "set cs = \<Inter> (available_set ` set users_data)"
    and r: "find_best_times users_data = Inr (sort_key composite_key (map (ranked users_data) cs))"
    by blast
  from cs slot_of_sorted_ranked [of users_data cs]
  have "slot_of ` set (sort_key composite_key (map (ranked users_data) cs)) =
      \<Inter> (available_set ` set users_data)"
    by (rule ssubst [rotated])
  with r False show ?thesis by simp
qed

text \<open>Two participants with the common slots Monday 9 and Tuesday 10.\<close>

theorem find_best_times_intersection_witness:
  "[user_a, user_b] \<noteq> [] \<and>
   find_best_times [user_a, user_b] =
     Inr [\<lparr>day = Monday, hour = 9, score = 1\<rparr>, \<lparr>day = Tuesday, hour = 10, score = 1\<rparr>] \<and>
   \<Inter> (available_set ` set [user_a, user_b]) = {(Monday, 9), (Tuesday, 10)}"
  using find_best_times_intersection [of "[user_a, user_b]"] find_best_times_user_a_b
  by (auto simp: slot_of_def)

subsection \<open>C2: the order of the result\<close>

text \<open>
  C2: the list returned by find_best_times is sorted ascending by the composite key
  (-score, day rank, hour), with Monday ranked 1 and Friday 5: a higher score comes first,
  equal scores are ordered by the earlier weekday, and equal score and weekday by the earlier
  hour.
\<close>

theorem find_best_times_sorted:
  "\<exists>r. find_best_times users_data = Inr r \<and>
       sorted (map composite_key r) \<and> sorted_wrt priority_le r"
proof (cases "users_data = []")
  case True
  then show ?thesis by (simp add: find_best_times_Nil)
next
  case False
  from find_best_times_char [OF False] obtain cs where
    r: "find_best_times users_data = Inr (sort_key composite_key (map (ranked users_data) cs))"
    by blast
  let ?r = "sort_key composite_key (map (ranked users_data) cs)"
  have s: "sorted (map composite_key ?r)" by (rule sorted_sort_key)
  then have "sorted_wrt (\<lambda>a b. composite_key a \<le> composite_key b) ?r"
    by (simp add: sorted_map)
  then have "sorted_wrt priority_le ?r"
    by (rule sorted_wrt_mono_rel [rotated]) (simp add: composite_key_le)
  with r s show ?thesis by blast
qed

text \<open>Equal scores: Monday comes before Tuesday.\<close>

theorem find_best_times_sorted_witness:
  "find_best_times [user_a, user_b] =
     Inr [\<lparr>day = Monday, hour = 9, score = 1\<rparr>, \<lparr>day = Tuesday, hour = 10, score = 1\<rparr>] \<and>
   sorted_wrt priority_le
     [\<lparr>day = Monday, hour = 9, score = 1\<rparr>, \<lparr>day = Tuesday, hour = 10, score = 1\<rparr>]"
  using find_best_times_sorted [of "[user_a, user_b]"] find_best_times_user_a_b by auto

subsection \<open>C3: the score\<close>

text \<open>
  C3: the score of every entry of the result is the number of participants of the whole
  input whose preferred slots contain the entry's (day, hour) pair; a participant counts
  once, however often the pair occurs in the participant's list of preferred slots.
\<close>

theorem find_best_times_score:
  "\<exists>r. find_best_times users_data = Inr r \<and>
       (\<forall>x \<in> set r. score x =
          int (length (filter (\<lambda>u. slot_of x \<in> preferred_set u) users_data)))"
proof (cases "users_data = []")
  case True
  then show ?thesis by (simp add: find_best_times_Nil)
next
  case False
  from find_best_times_char [OF False] obtain cs where
    r: "find_best_times users_data = Inr (sort_key composite_key (map (ranked users_data) cs))"
    by blast
  have "\<forall>x \<in> set (sort_key composite_key (map (ranked users_data) cs)).
          score x = int (length (filter (\<lambda>u. slot_of x \<in> preferred_set u) users_data))"
    by (auto simp: ranked_def slot_of_def preference_count_def)
  with r show ?thesis by blast
qed

text \<open>The first participant lists Tuesday 10 twice as preferred; its score is 1.\<close>

theorem find_best_times_score_witness:
  "find_best_times [user_a, user_b] =
     Inr [\<lparr>day = Monday, hour = 9, score = 1\<rparr>, \<lparr>day = Tuesday, hour = 10, score = 1\<rparr>] \<and>
   preferred_slots user_a = [slot Tuesday 10, slot Tuesday 10] \<and>
   int (length (filter (\<lambda>u. (Tuesday, 10) \<in> preferred_set u) [user_a, user_b])) = 1"
proof -
  have p: "preferred_slots user_a = [slot Tuesday 10, slot Tuesday 10]"
    by (simp add: user_a_def)
  have n: "int (length (filter (\<lambda>u. (Tuesday, 10) \<in> preferred_set u) [user_a, user_b])) = 1"
    by (simp add: preferred_set_def slot_of_def example_defs)
  from find_best_times_score [of "[user_a, user_b]"] find_best_times_user_a_b p n
  show ?thesis by blast
qed

subsection \<open>C4: one participant\<close>

text \<open>
  C4: for an input of one participant p, the set of (day, hour) pairs of the result is the
  set of pairs of p's available slots, and an entry's score is 1 if its pair occurs in p's
  preferred slots and 0 otherwise.
\<close>

theorem find_best_times_single:
  "\<exists>r. find_best_times [p] = Inr r \<and>
       slot_of ` set r = available_set p \<and>
       (\<forall>x \<in> set r. score x = (if slot_of x \<in> preferred_set p then 1 else 0))"
proof -
  from find_best_times_char [of "[p]"] obtain cs where
    cs: "set cs = available_set p"
    and r: "find_best_times [p] = Inr (sort_key composite_key (map (ranked [p]) cs))"
    by auto
  let ?r = "sort_key composite_key (map (ranked [p]) cs)"
  have "\<forall>x \<in> set ?r. score x = (if slot_of x \<in> preferred_set p then 1 else 0)"
    by (auto simp: ranked_def slot_of_def preference_count_def)
  moreover from cs slot_of_sorted_ranked [of "[p]" cs]
  have "slot_of ` set ?r = available_set p"
    by (rule ssubst [rotated])
  ultimately show ?thesis using r by blast
qed

text \<open>A participant whose list of available slots repeats Monday 9.\<close>

theorem find_best_times_single_witness:
  "find_best_times [user_a] =
     Inr [\<lparr>day = Tuesday, hour = 10, score = 1\<rparr>, \<lparr>day = Monday, hour = 9, score = 0\<rparr>,
          \<lparr>day = Friday, hour = 16, score = 0\<rparr>] \<and>
   available_set user_a = {(Tuesday, 10), (Monday, 9), (Friday, 16)} \<and>
   (Tuesday, 10) \<in> preferred_set user_a \<and> (Monday, 9) \<notin> preferred_set user_a"
proof -
  have a: "available_set user_a = {(Tuesday, 10), (Monday, 9), (Friday, 16)}"
    by (auto simp: available_set_def slot_of_def example_defs)
  have p: "(Tuesday, 10) \<in> preferred_set user_a" "(Monday, 9) \<notin> preferred_set user_a"
    by (simp_all add: preferred_set_def slot_of_def example_defs)
  from find_best_times_single [of user_a] find_best_times_user_a a p show ?thesis by blast
qed

subsection \<open>C5: the early return\<close>

text \<open>
  C5: find_best_times, which returns early when the running set of candidates is empty,
  returns the same value as the variant that never returns early and processes every
  participant.
\<close>

theorem find_best_times_short_circuit:
  "find_best_times users_data = find_best_times_no_short_circuit users_data"
proof (cases users_data)
  case Nil
  then show ?thesis by (simp add: find_best_times_def find_best_times_no_short_circuit_def)
next
  case (Cons u us)
  show ?thesis
  proof (cases "intersect_remaining (add_slots (available_slots u) []) us")
    case None
    then show ?thesis
      by (simp add: Cons find_best_times_def find_best_times_no_short_circuit_def
            intersect_all_short_circuit sorted_by_key_def)
  next
    case (Some cs)
    then show ?thesis
      by (simp add: Cons find_best_times_def find_best_times_no_short_circuit_def
            intersect_all_short_circuit)
  qed
qed

text \<open>The second of three participants empties the set of candidates.\<close>

theorem find_best_times_short_circuit_witness:
  "find_best_times [user_a, user_c, user_b] = Inr [] \<and>
   find_best_times_no_short_circuit [user_a, user_c, user_b] = Inr []"
  using find_best_times_short_circuit [of "[user_a, user_c, user_b]"] find_best_times_user_a_c_b
  by simp

subsection \<open>C6: permuting the participants\<close>

text \<open>
  C6: for an input and any permutation of it, the results of find_best_times have the same
  set of (day, hour) pairs.
\<close>

theorem find_best_times_permutation:
  assumes "mset users_data' = mset users_data"
  shows "\<exists>r r'. find_best_times users_data = Inr r \<and> find_best_times users_data' = Inr r' \<and>
           slot_of ` set r' = slot_of ` set r"
proof -
  from assms have s: "set users_data' = set users_data" by (rule mset_eq_setD)
  then have e: "users_data' = [] \<longleftrightarrow> users_data = []" by auto
  from find_best_times_slots [of users_data] find_best_times_slots [of users_data'] s e
  show ?thesis by (auto simp del: set_empty)
qed

text \<open>The two orders of two participants.\<close>

theorem find_best_times_permutation_witness:
  "mset [user_b, user_a] = mset [user_a, user_b] \<and>
   find_best_times [user_a, user_b] =
     Inr [\<lparr>day = Monday, hour = 9, score = 1\<rparr>, \<lparr>day = Tuesday, hour = 10, score = 1\<rparr>] \<and>
   find_best_times [user_b, user_a] =
     Inr [\<lparr>day = Monday, hour = 9, score = 1\<rparr>, \<lparr>day = Tuesday, hour = 10, score = 1\<rparr>]"
proof -
  have m: "mset [user_b, user_a] = mset [user_a, user_b]" by simp
  from find_best_times_permutation [OF m] m find_best_times_user_a_b find_best_times_user_b_a
  show ?thesis by simp
qed

subsection \<open>C7: disjoint participants\<close>

text \<open>
  C7: if two participants of the input, at any positions, have disjoint sets of available
  slots, find_best_times returns the empty list.
\<close>

theorem find_best_times_disjoint:
  assumes "i < length users_data" and "j < length users_data"
    and "available_set (users_data ! i) \<inter> available_set (users_data ! j) = {}"
  shows "find_best_times users_data = Inr []"
proof (rule find_best_times_empty_common)
  from assms(1,2) have "users_data ! i \<in> set users_data" "users_data ! j \<in> set users_data"
    by simp_all
  then have "\<Inter> (available_set ` set users_data) \<subseteq>
      available_set (users_data ! i) \<inter> available_set (users_data ! j)"
    by blast
  with assms(3) show "\<Inter> (available_set ` set users_data) = {}" by blast
qed

text \<open>The first and the third of three participants share no slot.\<close>

theorem find_best_times_disjoint_witness:
  "(0::nat) < length [user_a, user_b, user_c] \<and> (2::nat) < length [user_a, user_b, user_c] \<and>
   available_set ([user_a, user_b, user_c] ! 0) \<inter>
     available_set ([user_a, user_b, user_c] ! 2) = {} \<and>
   find_best_times [user_a, user_b, user_c] = Inr []"
proof -
  have d: "available_set ([user_a, user_b, user_c] ! 0) \<inter>
      available_set ([user_a, user_b, user_c] ! 2) = {}"
    by (simp add: available_set_def slot_of_def example_defs)
  have "(0::nat) < length [user_a, user_b, user_c]" "(2::nat) < length [user_a, user_b, user_c]"
    by simp_all
  from find_best_times_disjoint [OF this d] d show ?thesis by simp
qed

subsection \<open>C8: no error\<close>

text \<open>
  C8: find_best_times never raises: it returns a list for every input, the empty list for
  the empty input, and the empty list for every input that has a participant without
  available slots.
\<close>

theorem find_best_times_no_error:
  "(\<exists>r. find_best_times users_data = Inr r) \<and>
   find_best_times [] = Inr [] \<and>
   ((\<exists>u \<in> set users_data. available_slots u = []) \<longrightarrow> find_best_times users_data = Inr [])"
proof (intro conjI impI)
  from find_best_times_slots [of users_data]
  show "\<exists>r. find_best_times users_data = Inr r" by blast
  show "find_best_times [] = Inr []" by (rule find_best_times_Nil)
  assume "\<exists>u \<in> set users_data. available_slots u = []"
  then obtain u where "u \<in> set users_data" "available_set u = {}"
    by (auto simp: available_set_def)
  then have "\<Inter> (available_set ` set users_data) = {}" by blast
  then show "find_best_times users_data = Inr []" by (rule find_best_times_empty_common)
qed

text \<open>The second participant has no available slot.\<close>

theorem find_best_times_no_error_witness:
  "(\<exists>u \<in> set [user_a, user_d]. available_slots u = []) \<and>
   find_best_times [user_a, user_d] = Inr []"
proof -
  have e: "\<exists>u \<in> set [user_a, user_d]. available_slots u = []"
    by (simp add: user_d_def)
  with find_best_times_no_error [of "[user_a, user_d]"] show ?thesis by blast
qed

subsection \<open>C9: no slot twice\<close>

text \<open>
  C9: the (day, hour) pairs of the entries of the result are pairwise distinct, also when a
  participant's list of available slots repeats a slot.
\<close>

theorem find_best_times_distinct:
  "\<exists>r. find_best_times users_data = Inr r \<and> distinct (map slot_of r)"
proof (cases "users_data = []")
  case True
  then show ?thesis by (simp add: find_best_times_Nil)
next
  case False
  from find_best_times_char [OF False] obtain cs where
    d: "distinct cs"
    and r: "find_best_times users_data = Inr (sort_key composite_key (map (ranked users_data) cs))"
    by blast
  from distinct_slots_sorted [OF d, of users_data] r show ?thesis by blast
qed

text \<open>Monday 9 is listed twice as available and occurs once in the result.\<close>

theorem find_best_times_distinct_witness:
  "available_slots user_a = [slot Monday 9, slot Tuesday 10, slot Monday 9, slot Friday 16] \<and>
   find_best_times [user_a] =
     Inr [\<lparr>day = Tuesday, hour = 10, score = 1\<rparr>, \<lparr>day = Monday, hour = 9, score = 0\<rparr>,
          \<lparr>day = Friday, hour = 16, score = 0\<rparr>] \<and>
   distinct [(Tuesday, 10 :: int), (Monday, 9), (Friday, 16)]"
proof -
  have a: "available_slots user_a = [slot Monday 9, slot Tuesday 10, slot Monday 9, slot Friday 16]"
    by (simp add: user_a_def)
  from find_best_times_distinct [of "[user_a]"] find_best_times_user_a
  have "distinct [(Tuesday, 10 :: int), (Monday, 9), (Friday, 16)]"
    by (simp add: slot_of_def)
  with find_best_times_user_a a show ?thesis by blast
qed

subsection \<open>C10: the input is not modified\<close>

text \<open>
  C10: find_best_times does not modify its input. On every store that holds a sequence of
  participants at the address passed, the call returns, every object that existed before
  the call is unchanged after it, and so the sequence and each participant's available and
  preferred slots read after the call as they did before. The list returned holds the value
  of find_best_times on that input.
\<close>

theorem find_best_times_frame:
  assumes "read_users h users_data = Some us"
  shows "\<exists>h' res r. find_best_times_st h users_data = Some (h', res) \<and>
           take (length h) h' = h \<and>
           read_users h' users_data = Some us \<and>
           read_result h' res = Some r \<and> find_best_times us = Inr r"
proof -
  from find_best_times_st_refines [OF assms] obtain h' res r where
    run: "find_best_times_st h users_data = Some (h', res)"
    and e: "extends h h'"
    and r: "read_result h' res = Some r" "find_best_times us = Inr r"
    by blast
  from e have "take (length h) h' = h" by (simp add: extends_def)
  moreover from e assms have "read_users h' users_data = Some us"
    by (rule read_users_extends)
  ultimately show ?thesis using run r by blast
qed

text \<open>The example store: the call allocates eight objects and leaves the first nine alone.\<close>

theorem find_best_times_frame_witness:
  "read_users example_store 8 =
     Some [\<lparr>available_slots = [slot Monday 9, slot Tuesday 10, slot Monday 9],
             preferred_slots = [slot Tuesday 10]\<rparr>,
           \<lparr>available_slots = [slot Tuesday 10, slot Monday 9],
             preferred_slots = [slot Monday 9]\<rparr>] \<and>
   (\<exists>h' res. find_best_times_st example_store 8 = Some (h', res) \<and>
      length h' = 17 \<and> take (length example_store) h' = example_store \<and>
      read_result h' res =
        Some [\<lparr>day = Monday, hour = 9, score = 1\<rparr>, \<lparr>day = Tuesday, hour = 10, score = 1\<rparr>])"
proof -
  have r: "read_users example_store 8 =
     Some [\<lparr>available_slots = [slot Monday 9, slot Tuesday 10, slot Monday 9],
             preferred_slots = [slot Tuesday 10]\<rparr>,
           \<lparr>available_slots = [slot Tuesday 10, slot Monday 9],
             preferred_slots = [slot Monday 9]\<rparr>]"
    by code_simp
  have run: "find_best_times_st example_store 8 =
     Some (example_store @
             [SetObj [(Monday, 9), (Tuesday, 10)], ListObj [7],
              SetObj [(Tuesday, 10), (Monday, 9)], SetObj [(Monday, 9), (Tuesday, 10)],
              ListObj [14, 15], DictObj Monday 9 1, DictObj Tuesday 10 1, ListObj [14, 15]],
           16)"
    by code_simp
  have len: "length example_store = 9" by (simp add: example_store_def)
  from find_best_times_frame [OF r] obtain h' res x where
    f: "find_best_times_st example_store 8 = Some (h', res)"
    and t: "take (length example_store) h' = example_store"
    and x: "read_result h' res = Some x"
      "find_best_times
         [\<lparr>available_slots = [slot Monday 9, slot Tuesday 10, slot Monday 9],
            preferred_slots = [slot Tuesday 10]\<rparr>,
          \<lparr>available_slots = [slot Tuesday 10, slot Monday 9],
            preferred_slots = [slot Monday 9]\<rparr>] = Inr x"
    by blast
  have "find_best_times
         [\<lparr>available_slots = [slot Monday 9, slot Tuesday 10, slot Monday 9],
            preferred_slots = [slot Tuesday 10]\<rparr>,
          \<lparr>available_slots = [slot Tuesday 10, slot Monday 9],
            preferred_slots = [slot Monday 9]\<rparr>] =
        Inr [\<lparr>day = Monday, hour = 9, score = 1\<rparr>, \<lparr>day = Tuesday, hour = 10, score = 1\<rparr>]"
    by code_simp
  with x have "read_result h' res =
      Some [\<lparr>day = Monday, hour = 9, score = 1\<rparr>, \<lparr>day = Tuesday, hour = 10, score = 1\<rparr>]"
    by simp
  moreover from f run len have "length h' = 17" by auto
  ultimately show ?thesis using r f t by blast
qed

end
